theory Spec2Isabelle
  imports Complex_Main "HOL-Library.Signed_Division"
begin

section \<open>Generators (src/types.ts)\<close>

text \<open>
  \<^verbatim>\<open>export type GenFn<T> = () => Generator<T>;\<close>

  A generator function is called to obtain a fresh generator; the generator is then
  resumed repeatedly. Every generator of the library is a \<^verbatim>\<open>for\<close> loop
  around a source, so a generator is modelled by its suspended state and by what one
  turn of its loop does: it yields a value, it goes round without yielding (a filtered
  element, a restart), it returns, or it throws. A \<open>GenFn\<close> is the state the
  call creates (\<open>entry\<close>) together with that turn (\<open>resume\<close>). All numbers
  are integers, modelled as \<open>int\<close> with exact arithmetic.
\<close>

datatype error = StepCannotBeZero

datatype 'a pull = Yield 'a | Skip | Done | Throw error

record ('s, 'a) GenFn =
  entry :: 's
  resume :: "'s \<Rightarrow> 'a pull \<times> 's"

text \<open>
  What a consumer that keeps resuming a generator (\<^verbatim>\<open>[...g()]\<close>) has seen after at
  most \<open>k\<close> turns: the values yielded so far, and whether the generator has returned,
  has thrown, or is still running.
\<close>

datatype outcome = Running | Returned | Thrown error

fun run_loop :: "nat \<Rightarrow> ('s \<Rightarrow> 'a pull \<times> 's) \<Rightarrow> 's \<Rightarrow> 'a list \<times> outcome" where
  "run_loop 0 nx s = ([], Running)"
| "run_loop (Suc k) nx s =
     (case nx s of (p, s') \<Rightarrow>
        (case p of
           Yield x \<Rightarrow> (case run_loop k nx s' of (xs, r) \<Rightarrow> (x # xs, r))
         | Skip \<Rightarrow> run_loop k nx s'
         | Done \<Rightarrow> ([], Returned)
         | Throw e \<Rightarrow> ([], Thrown e)))"

definition run :: "nat \<Rightarrow> ('s, 'a) GenFn \<Rightarrow> 'a list \<times> outcome" where
  "run k g = run_loop k (resume g) (entry g)"

section \<open>Range generator (src/iter/range.ts, src/range/range.ts)\<close>

text \<open>
  \<^verbatim>\<open>
  export function rangeGen(start: number, end: number, step: number = 1) {
    return function* () {
      if (step === 0) throw new Error("Step cannot be 0");
      const min = Math.min(start, end);
      for (let i = start; min === start ? i < end : i > end; i += step) {
        yield i;
      }
    };
  }\<close>
  The state is the loop variable \<open>i\<close>.
\<close>

definition rangeGen :: "int \<Rightarrow> int \<Rightarrow> int option \<Rightarrow> (int, int) GenFn" where
  "rangeGen start stop step_arg =
     (let step = (case step_arg of None \<Rightarrow> 1 | Some st \<Rightarrow> st) in
      \<lparr> entry = start,
        resume = (\<lambda>i.
          if step = 0 then (Throw StepCannotBeZero, i)
          else if (if min start stop = start then i < stop else i > stop)
               then (Yield i, i + step)
               else (Done, i)) \<rparr>)"

definition getRangeParams :: "int \<Rightarrow> int option \<Rightarrow> int \<times> int" where
  "getRangeParams arg1 arg2 =
     (let stop = (case arg2 of None \<Rightarrow> arg1 | Some a \<Rightarrow> a);
          start = (case arg2 of None \<Rightarrow> 0 | Some _ \<Rightarrow> arg1)
      in (start, stop))"

text \<open>The low-level \<^verbatim>\<open>range\<close> and \<^verbatim>\<open>irange\<close> of src/range/range.ts
  (imported elsewhere as \<^verbatim>\<open>_range\<close>): generator functions only.\<close>

definition range_gen :: "int \<Rightarrow> int option \<Rightarrow> int option \<Rightarrow> (int, int) GenFn" where
  "range_gen arg1 arg2 step_arg =
     (let step = (case step_arg of None \<Rightarrow> 1 | Some st \<Rightarrow> st) in
      case getRangeParams arg1 arg2 of (start, stop) \<Rightarrow>
      \<lparr> entry = start,
        resume = (\<lambda>i.
          if step = 0 then (Throw StepCannotBeZero, i)
          else if (if min start stop = start then i < stop else i > stop)
               then (Yield i, i + step)
               else (Done, i)) \<rparr>)"


section \<open>The three iterator tiers (src/iter/mod.ts, src/range/range.ts)\<close>

text \<open>
  \<^verbatim>\<open>class Iter<T> { protected _gen: GenFn<T>; ... }\<close>,
  \<^verbatim>\<open>class ExactSizedIter<T> extends Iter<T> { protected _len: number; ... }\<close>,
  \<^verbatim>\<open>class DoubleEndedIter<T> extends ExactSizedIter<T> { _rgen: GenFn<T>; ... }\<close>.
  The method \<^verbatim>\<open>len()\<close> returns the field \<open>len\<close>.
\<close>

record ('s, 'a) Iter =
  gen :: "('s, 'a) GenFn"

record ('s, 'a) ExactSizedIter = "('s, 'a) Iter" +
  len :: int

record ('s, 'a) DoubleEndedIter = "('s, 'a) ExactSizedIter" +
  rgen :: "('s, 'a) GenFn"

section \<open>Range constructors (src/iter/range.ts)\<close>

text \<open>
  \<^verbatim>\<open>
  export function range(arg1: number, arg2?: number, step: number = 1) {
    const [start, end] = getRangeParams(arg1, arg2);
    if (step === 0) throw new Error("Step cannot be 0");
    if ((step > 0 && start >= end) || (step < 0 && start <= end)) {
      return new DoubleEndedIter(rangeGen(0, 0), rangeGen(0, 0), 0); // Empty range
    }
    const last = end - ((end - start) % step || step);
    return new DoubleEndedIter(
      rangeGen(start, end, step),
      rangeGen(last, start - step, -step),
      Math.ceil(Math.abs(end - start) / Math.abs(step)),
    );
  }\<close>
  The remainder \<^verbatim>\<open>%\<close> takes the sign of the dividend (\<open>smod\<close>);
  \<^verbatim>\<open>x || step\<close> is \<open>step\<close> when \<open>x\<close> is \<open>0\<close>.
\<close>

definition range_iter :: "int \<Rightarrow> int option \<Rightarrow> int option \<Rightarrow> error + (int, int) DoubleEndedIter" where
  "range_iter arg1 arg2 step_arg =
     (let step = (case step_arg of None \<Rightarrow> 1 | Some st \<Rightarrow> st) in
      case getRangeParams arg1 arg2 of (start, stop) \<Rightarrow>
      if step = 0 then Inl StepCannotBeZero
      else if (step > 0 \<and> start \<ge> stop) \<or> (step < 0 \<and> start \<le> stop)
      then Inr \<lparr> gen = rangeGen 0 0 None, len = 0, rgen = rangeGen 0 0 None \<rparr>
      else
        let rem = (stop - start) smod step;
            last = stop - (if rem = 0 then step else rem)
        in Inr \<lparr> gen = rangeGen start stop (Some step),
                 len = \<lceil>real_of_int \<bar>stop - start\<bar> / real_of_int \<bar>step\<bar>\<rceil>,
                 rgen = rangeGen last (start - step) (Some (- step)) \<rparr>)"

text \<open>
  \<^verbatim>\<open>
  export function irange(arg1: number, arg2?: number, step: number = 1) {
    const [start, end] = getRangeParams(arg1, arg2);
    if (step === 0) throw new Error("Step cannot be 0");
    const last = step > 0
      ? start + Math.floor((end - start) / step) * step
      : start + Math.ceil((end - start) / step) * step;
    return new DoubleEndedIter(
      rangeGen(start, last + step, step),
      rangeGen(last, start - step, -step),
      Math.floor(Math.abs(end - start) / Math.abs(step)) + 1,
    );
  }\<close>
\<close>

definition irange_iter :: "int \<Rightarrow> int option \<Rightarrow> int option \<Rightarrow> error + (int, int) DoubleEndedIter" where
  "irange_iter arg1 arg2 step_arg =
     (let step = (case step_arg of None \<Rightarrow> 1 | Some st \<Rightarrow> st) in
      case getRangeParams arg1 arg2 of (start, stop) \<Rightarrow>
      if step = 0 then Inl StepCannotBeZero
      else
        let last = (if step > 0
                    then start + \<lfloor>real_of_int (stop - start) / real_of_int step\<rfloor> * step
                    else start + \<lceil>real_of_int (stop - start) / real_of_int step\<rceil> * step)
        in Inr \<lparr> gen = rangeGen start (last + step) (Some step),
                 len = \<lfloor>real_of_int \<bar>stop - start\<bar> / real_of_int \<bar>step\<bar>\<rfloor> + 1,
                 rgen = rangeGen last (start - step) (Some (- step)) \<rparr>)"

text \<open>
  \<^verbatim>\<open>
  rev(): DoubleEndedIter<T> {
    return new DoubleEndedIter(this._rgen, this._gen, this._len);
  }\<close>
\<close>

definition DoubleEndedIter_rev :: "('s, 'a) DoubleEndedIter \<Rightarrow> ('s, 'a) DoubleEndedIter" where
  "DoubleEndedIter_rev it = \<lparr> gen = rgen it, len = len it, rgen = gen it \<rparr>"

section \<open>Range constructors of the utilities file (src/unnamed/part_001)\<close>

text \<open>
  The same \<^verbatim>\<open>range\<close>, built on \<^verbatim>\<open>_range\<close> of src/range/range.ts, and an
  \<^verbatim>\<open>irange\<close> that delegates to it:
  \<^verbatim>\<open>
  export function irange(arg1: number, arg2?: number, step: number = 1) {
    const [start, end] = getRangeParams(arg1, arg2);
    return range(start, end + step, step);
  }\<close>
\<close>

definition range_utils :: "int \<Rightarrow> int option \<Rightarrow> int option \<Rightarrow> error + (int, int) DoubleEndedIter" where
  "range_utils arg1 arg2 step_arg =
     (let step = (case step_arg of None \<Rightarrow> 1 | Some st \<Rightarrow> st) in
      case getRangeParams arg1 arg2 of (start, stop) \<Rightarrow>
      if step = 0 then Inl StepCannotBeZero
      else if (step > 0 \<and> start \<ge> stop) \<or> (step < 0 \<and> start \<le> stop)
      then Inr \<lparr> gen = range_gen 0 (Some 0) None, len = 0, rgen = range_gen 0 (Some 0) None \<rparr>
      else
        let rem = (stop - start) smod step;
            last = stop - (if rem = 0 then step else rem)
        in Inr \<lparr> gen = range_gen start (Some stop) (Some step),
                 len = \<lceil>real_of_int \<bar>stop - start\<bar> / real_of_int \<bar>step\<bar>\<rceil>,
                 rgen = range_gen last (Some (start - step)) (Some (- step)) \<rparr>)"

definition irange_utils :: "int \<Rightarrow> int option \<Rightarrow> int option \<Rightarrow> error + (int, int) DoubleEndedIter" where
  "irange_utils arg1 arg2 step_arg =
     (let step = (case step_arg of None \<Rightarrow> 1 | Some st \<Rightarrow> st) in
      case getRangeParams arg1 arg2 of (start, stop) \<Rightarrow>
      range_utils start (Some (stop + step)) (Some step))"

section \<open>Combinators (src/unnamed/part_001)\<close>

text \<open>
  \<^verbatim>\<open>
  export function take<T>(n: number): (gen: GenFn<T>) => GenFn<T> {
    return (gen) =>
      function* () {
        let i = 0;
        for (const item of gen()) {
          if (i === n) break;
          yield item;
          i++;
        }
      };
  }\<close>
  The state is the counter \<open>i\<close> with the state of the source.
\<close>

definition take_gen :: "int \<Rightarrow> ('s, 'a) GenFn \<Rightarrow> (int \<times> 's, 'a) GenFn" where
  "take_gen n g =
     \<lparr> entry = (0, entry g),
       resume = (\<lambda>(i, s). case resume g s of (p, s') \<Rightarrow>
         (case p of
            Yield x \<Rightarrow> if i = n then (Done, (i, s')) else (Yield x, (i + 1, s'))
          | Skip \<Rightarrow> (Skip, (i, s'))
          | Done \<Rightarrow> (Done, (i, s'))
          | Throw e \<Rightarrow> (Throw e, (i, s')))) \<rparr>"

text \<open>
  \<^verbatim>\<open>
  export function skip<T>(n: number): (gen: GenFn<T>) => GenFn<T> {
    return (gen) =>
      function* () {
        let skip = n;
        for (const item of gen()) {
          if (skip <= 0) yield item;
          skip--;
        }
      };
  }\<close>
\<close>

definition skip :: "int \<Rightarrow> ('s, 'a) GenFn \<Rightarrow> (int \<times> 's, 'a) GenFn" where
  "skip n g =
     \<lparr> entry = (n, entry g),
       resume = (\<lambda>(k, s). case resume g s of (p, s') \<Rightarrow>
         (case p of
            Yield x \<Rightarrow> if k \<le> 0 then (Yield x, (k - 1, s')) else (Skip, (k - 1, s'))
          | Skip \<Rightarrow> (Skip, (k, s'))
          | Done \<Rightarrow> (Done, (k, s'))
          | Throw e \<Rightarrow> (Throw e, (k, s')))) \<rparr>"

text \<open>
  \<^verbatim>\<open>
  export function skipWhile<T>(fn: Predicate<T>): (gen: GenFn<T>) => GenFn<T> {
    return (gen) =>
      function* () {
        for (const item of gen()) {
          if (fn(item)) continue;
          yield item;
        }
      };
  }\<close>
\<close>

definition skipWhile :: "('a \<Rightarrow> bool) \<Rightarrow> ('s, 'a) GenFn \<Rightarrow> ('s, 'a) GenFn" where
  "skipWhile fn g =
     \<lparr> entry = entry g,
       resume = (\<lambda>s. case resume g s of (p, s') \<Rightarrow>
         (case p of
            Yield x \<Rightarrow> if fn x then (Skip, s') else (Yield x, s')
          | Skip \<Rightarrow> (Skip, s')
          | Done \<Rightarrow> (Done, s')
          | Throw e \<Rightarrow> (Throw e, s'))) \<rparr>"

text \<open>
  \<^verbatim>\<open>
  export function cycle<T>(gen: GenFn<T>): GenFn<T> {
    return function* () {
      while (true) yield* gen();
    };
  }\<close>
  When the inner generator returns, the loop calls \<^verbatim>\<open>gen()\<close> again: a turn without
  a value, back in the entry state.
\<close>

definition cycle :: "('s, 'a) GenFn \<Rightarrow> ('s, 'a) GenFn" where
  "cycle g =
     \<lparr> entry = entry g,
       resume = (\<lambda>s. case resume g s of (p, s') \<Rightarrow>
         (case p of
            Yield x \<Rightarrow> (Yield x, s')
          | Skip \<Rightarrow> (Skip, s')
          | Done \<Rightarrow> (Skip, entry g)
          | Throw e \<Rightarrow> (Throw e, s'))) \<rparr>"

text \<open>
  \<^verbatim>\<open>
  export function fold<T, U>(init: U, fn: (acc: U, item: T) => U): (gen: GenFn<T>) => U {
    return (gen) => {
      let acc = init;
      for (const item of gen()) acc = fn(acc, item);
      return acc;
    };
  }\<close>
  A terminal operation drains its source and need not return: the loop takes fuel, and
  \<open>None\<close> is the loop still running when the fuel is spent.
\<close>

fun fold_loop :: "nat \<Rightarrow> ('u \<Rightarrow> 'a \<Rightarrow> 'u) \<Rightarrow> ('s \<Rightarrow> 'a pull \<times> 's) \<Rightarrow> 'u \<Rightarrow> 's \<Rightarrow> (error + 'u) option" where
  "fold_loop 0 fn nx acc s = None"
| "fold_loop (Suc k) fn nx acc s =
     (case nx s of (p, s') \<Rightarrow>
        (case p of
           Yield x \<Rightarrow> fold_loop k fn nx (fn acc x) s'
         | Skip \<Rightarrow> fold_loop k fn nx acc s'
         | Done \<Rightarrow> Some (Inr acc)
         | Throw e \<Rightarrow> Some (Inl e)))"

definition fold_gen :: "nat \<Rightarrow> 'u \<Rightarrow> ('u \<Rightarrow> 'a \<Rightarrow> 'u) \<Rightarrow> ('s, 'a) GenFn \<Rightarrow> (error + 'u) option" where
  "fold_gen k init fn g = fold_loop k fn (resume g) init (entry g)"



text \<open>
  \<^verbatim>\<open>
  export function count<T>(): (gen: GenFn<T>) => number {
    return (gen) => fold(0, (acc) => acc + 1)(gen);
  }\<close>
\<close>

definition count :: "nat \<Rightarrow> ('s, 'a) GenFn \<Rightarrow> (error + int) option" where
  "count k g = fold_gen k 0 (\<lambda>acc _. acc + 1) g"

section \<open>Construction from an array or a generator function (src/iter/mod.ts)\<close>

text \<open>
  \<^verbatim>\<open>
  if (typeof input === "function") return new Iter(input);
  if (Array.isArray(input)) {
    return new DoubleEndedIter(
      function* () { for (let i = 0; i < input.length; i++) yield input[i]; },
      function* () { for (let i = input.length - 1; i >= 0; i--) yield input[i]; },
      input.length,
    );
  }\<close>
  Every index the two loops read is within the array.
\<close>

definition iter_GenFn :: "('s, 'a) GenFn \<Rightarrow> ('s, 'a) Iter" where
  "iter_GenFn input = \<lparr> gen = input \<rparr>"

definition iter_Array :: "'a list \<Rightarrow> (int, 'a) DoubleEndedIter" where
  "iter_Array input =
     \<lparr> gen = \<lparr> entry = 0,
               resume = (\<lambda>i. if i < int (length input)
                              then (Yield (input ! nat i), i + 1) else (Done, i)) \<rparr>,
       len = int (length input),
       rgen = \<lparr> entry = int (length input) - 1,
                resume = (\<lambda>i. if i \<ge> 0
                               then (Yield (input ! nat i), i - 1) else (Done, i)) \<rparr> \<rparr>"

section \<open>Iterator methods (src/iter/mod.ts, src/range/range.ts)\<close>

text \<open>
  Base tier: \<^verbatim>\<open>take(n) { return new ExactSizedIter(take<T>(n)(this._gen), n); }\<close>,
  \<^verbatim>\<open>skipWhile(fn) { return new Iter(skipWhile(fn)(this._gen)); }\<close>,
  \<^verbatim>\<open>fold(init, fn) { return fold(init, fn)(this._gen); }\<close>,
  \<^verbatim>\<open>reduce(fn) { return reduce(fn)(this._gen); }\<close>.
\<close>

definition Iter_take :: "int \<Rightarrow> ('s, 'a) Iter \<Rightarrow> (int \<times> 's, 'a) ExactSizedIter" where
  "Iter_take n it = \<lparr> gen = take_gen n (gen it), len = n \<rparr>"

definition Iter_skipWhile :: "('a \<Rightarrow> bool) \<Rightarrow> ('s, 'a) Iter \<Rightarrow> ('s, 'a) Iter" where
  "Iter_skipWhile fn it = \<lparr> gen = skipWhile fn (gen it) \<rparr>"



text \<open>
  Exact-sized tier. The iterator protocol, inherited unchanged by the double-ended tier:
  \<^verbatim>\<open>
  override *[Symbol.iterator]() {
    let i = 0;
    for (const item of this._gen()) {
      if (i === this._len) break;
      yield item;
      i++;
    }
  }\<close>
  and the overrides
  \<^verbatim>\<open>take(n) { return new ExactSizedIter(take<T>(n)(this._gen), n); }\<close>,
  \<^verbatim>\<open>skip(n) { return new ExactSizedIter(skip<T>(n)(this._gen), this._len - n); }\<close>,
  \<^verbatim>\<open>cycle() { return new ExactSizedIter(cycle(this._gen), this._len); }\<close>.
\<close>

definition ExactSizedIter_iterator :: "('s, 'a, 'z) ExactSizedIter_scheme \<Rightarrow> (int \<times> 's, 'a) GenFn" where
  "ExactSizedIter_iterator it =
     \<lparr> entry = (0, entry (gen it)),
       resume = (\<lambda>(i, s). case resume (gen it) s of (p, s') \<Rightarrow>
         (case p of
            Yield x \<Rightarrow> if i = len it then (Done, (i, s')) else (Yield x, (i + 1, s'))
          | Skip \<Rightarrow> (Skip, (i, s'))
          | Done \<Rightarrow> (Done, (i, s'))
          | Throw e \<Rightarrow> (Throw e, (i, s')))) \<rparr>"

definition ExactSizedIter_take :: "int \<Rightarrow> ('s, 'a) ExactSizedIter \<Rightarrow> (int \<times> 's, 'a) ExactSizedIter" where
  "ExactSizedIter_take n it = \<lparr> gen = take_gen n (gen it), len = n \<rparr>"

definition ExactSizedIter_skip :: "int \<Rightarrow> ('s, 'a) ExactSizedIter \<Rightarrow> (int \<times> 's, 'a) ExactSizedIter" where
  "ExactSizedIter_skip n it = \<lparr> gen = skip n (gen it), len = len it - n \<rparr>"

definition ExactSizedIter_cycle :: "('s, 'a) ExactSizedIter \<Rightarrow> ('s, 'a) ExactSizedIter" where
  "ExactSizedIter_cycle it = \<lparr> gen = cycle (gen it), len = len it \<rparr>"

text \<open>
  Double-ended tier:
  \<^verbatim>\<open>take(n) { return new DoubleEndedIter(take<T>(n)(this._gen), take<T>(n)(this._rgen), n); }\<close>,
  \<^verbatim>\<open>skip(n) { return new DoubleEndedIter(skip<T>(n)(this._gen), skip<T>(n)(this._rgen), this._len - n); }\<close>,
  \<^verbatim>\<open>cycle() { return new DoubleEndedIter(cycle(this._gen), cycle(this._rgen), this._len); }\<close>.
\<close>

definition DoubleEndedIter_take :: "int \<Rightarrow> ('s, 'a) DoubleEndedIter \<Rightarrow> (int \<times> 's, 'a) DoubleEndedIter" where
  "DoubleEndedIter_take n it =
     \<lparr> gen = take_gen n (gen it), len = n, rgen = take_gen n (rgen it) \<rparr>"

definition DoubleEndedIter_skip :: "int \<Rightarrow> ('s, 'a) DoubleEndedIter \<Rightarrow> (int \<times> 's, 'a) DoubleEndedIter" where
  "DoubleEndedIter_skip n it =
     \<lparr> gen = skip n (gen it), len = len it - n, rgen = skip n (rgen it) \<rparr>"

definition DoubleEndedIter_cycle :: "('s, 'a) DoubleEndedIter \<Rightarrow> ('s, 'a) DoubleEndedIter" where
  "DoubleEndedIter_cycle it =
     \<lparr> gen = cycle (gen it), len = len it, rgen = cycle (rgen it) \<rparr>"

section \<open>Arithmetic progressions\<close>

text \<open>\<open>progression a d n\<close> is the list \<open>[a, a + d, \<dots>, a + (n - 1) * d]\<close> of \<open>n\<close> integers.\<close>

fun progression :: "int \<Rightarrow> int \<Rightarrow> nat \<Rightarrow> int list" where
  "progression a d 0 = []"
| "progression a d (Suc n) = a # progression (a + d) d n"

section \<open>Runs and progressions\<close>

lemma length_progression: "length (progression a d n) = n"
  by (induction n arbitrary: a) simp_all

lemma progression_snoc: "progression a d (Suc n) = progression a d n @ [a + int n * d]"
proof (induction n arbitrary: a)
  case 0
  then show ?case by simp
next
  case (Suc n)
  have "progression a d (Suc (Suc n)) = a # progression (a + d) d (Suc n)"
    by simp
  also have "\<dots> = a # (progression (a + d) d n @ [a + d + int n * d])"
    by (simp only: Suc.IH)
  also have "\<dots> = progression a d (Suc n) @ [a + int (Suc n) * d]"
    by (simp add: algebra_simps)
  finally show ?case .
qed

lemma rev_progression: "rev (progression a d n) = progression (a + (int n - 1) * d) (- d) n"
proof (induction n)
  case 0
  then show ?case by simp
next
  case (Suc n)
  have "rev (progression a d (Suc n)) = (a + int n * d) # rev (progression a d n)"
    by (simp only: progression_snoc rev_append rev.simps append.simps)
  also have "\<dots> = (a + int n * d) # progression (a + (int n - 1) * d) (- d) n"
    by (simp only: Suc.IH)
  also have "\<dots> = progression (a + (int (Suc n) - 1) * d) (- d) (Suc n)"
    by (simp add: algebra_simps)
  finally show ?case .
qed

lemma progression_map: "progression a d n = map (\<lambda>j. a + int j * d) [0..<n]"
proof (induction n)
  case 0
  then show ?case by simp
next
  case (Suc n)
  show ?case
    unfolding progression_snoc Suc.IH by simp
qed

lemma run_loop_finished:
  "run_loop k nx s = (xs, r) \<Longrightarrow> r \<noteq> Running \<Longrightarrow> run_loop (k + m) nx s = (xs, r)"
proof (induction k arbitrary: s xs)
  case 0
  then show ?case by simp
next
  case (Suc k)
  obtain p s' where step: "nx s = (p, s')" by (cases "nx s")
  show ?case
  proof (cases p)
    case (Yield x)
    obtain ys r' where rest: "run_loop k nx s' = (ys, r')" by (cases "run_loop k nx s'")
    with Suc.prems step Yield have eqs: "xs = x # ys" "r' = r" by simp_all
    from rest eqs have "run_loop k nx s' = (ys, r)" by simp
    from Suc.IH [OF this Suc.prems(2)] have "run_loop (k + m) nx s' = (ys, r)" .
    with step Yield \<open>xs = x # ys\<close> show ?thesis by simp
  next
    case Skip
    with Suc.prems step have "run_loop k nx s' = (xs, r)" by simp
    from Suc.IH [OF this Suc.prems(2)] step Skip show ?thesis by simp
  next
    case Done
    with Suc.prems step show ?thesis by simp
  next
    case (Throw e)
    with Suc.prems step show ?thesis by simp
  qed
qed

lemma run_loop_up:
  assumes "0 < d"
    and "\<And>i. nx i = (if i < stop then (Yield i, i + d) else (Done, i))"
  shows "stop \<le> a + int n * d \<Longrightarrow> a + int n * d - d < stop \<Longrightarrow>
         run_loop (Suc n) nx a = (progression a d n, Returned)"
proof (induction n arbitrary: a)
  case 0
  then show ?case by (simp add: assms(2))
next
  case (Suc n)
  have "0 \<le> int n * d" using assms(1) by simp
  with Suc.prems(2) have lt: "a < stop" by (simp add: algebra_simps)
  then have turn: "nx a = (Yield a, a + d)" by (simp add: assms(2))
  have rest: "run_loop (Suc n) nx (a + d) = (progression (a + d) d n, Returned)"
    using Suc.prems by (intro Suc.IH) (simp_all add: algebra_simps)
  have "run_loop (Suc (Suc n)) nx a =
        (case run_loop (Suc n) nx (a + d) of (xs, r) \<Rightarrow> (a # xs, r))"
    by (simp only: run_loop.simps(2) [of "Suc n" nx a] turn prod.case pull.case)
  also have "\<dots> = (progression a d (Suc n), Returned)"
    by (simp only: rest prod.case progression.simps)
  finally show ?case .
qed

lemma run_loop_down:
  assumes "d < 0"
    and "\<And>i. nx i = (if stop < i then (Yield i, i + d) else (Done, i))"
  shows "a + int n * d \<le> stop \<Longrightarrow> stop < a + int n * d - d \<Longrightarrow>
         run_loop (Suc n) nx a = (progression a d n, Returned)"
proof (induction n arbitrary: a)
  case 0
  then show ?case by (simp add: assms(2))
next
  case (Suc n)
  have "int n * d \<le> 0" using assms(1) by (simp add: mult_nonneg_nonpos)
  with Suc.prems(2) have lt: "stop < a" by (simp add: algebra_simps)
  then have turn: "nx a = (Yield a, a + d)" by (simp add: assms(2))
  have rest: "run_loop (Suc n) nx (a + d) = (progression (a + d) d n, Returned)"
    using Suc.prems by (intro Suc.IH) (simp_all add: algebra_simps)
  have "run_loop (Suc (Suc n)) nx a =
        (case run_loop (Suc n) nx (a + d) of (xs, r) \<Rightarrow> (a # xs, r))"
    by (simp only: run_loop.simps(2) [of "Suc n" nx a] turn prod.case pull.case)
  also have "\<dots> = (progression a d (Suc n), Returned)"
    by (simp only: rest prod.case progression.simps)
  finally show ?case .
qed

lemma run_loop_up_forever:
  assumes "0 < d"
    and "\<And>i. nx i = (if stop < i then (Yield i, i + d) else (Done, i))"
  shows "stop < a \<Longrightarrow> run_loop n nx a = (progression a d n, Running)"
proof (induction n arbitrary: a)
  case 0
  then show ?case by simp
next
  case (Suc n)
  then have turn: "nx a = (Yield a, a + d)" by (simp add: assms(2))
  have rest: "run_loop n nx (a + d) = (progression (a + d) d n, Running)"
    using Suc.prems assms(1) by (intro Suc.IH) simp
  show ?case
    by (simp only: run_loop.simps(2) turn prod.case pull.case rest progression.simps)
qed

lemma run_loop_down_forever:
  assumes "d < 0"
    and "\<And>i. nx i = (if i < stop then (Yield i, i + d) else (Done, i))"
  shows "a < stop \<Longrightarrow> run_loop n nx a = (progression a d n, Running)"
proof (induction n arbitrary: a)
  case 0
  then show ?case by simp
next
  case (Suc n)
  then have turn: "nx a = (Yield a, a + d)" by (simp add: assms(2))
  have rest: "run_loop n nx (a + d) = (progression (a + d) d n, Running)"
    using Suc.prems assms(1) by (intro Suc.IH) simp
  show ?case
    by (simp only: run_loop.simps(2) turn prod.case pull.case rest progression.simps)
qed

section \<open>What the range generator yields\<close>

lemma ceiling_count:
  fixes k l :: int
  assumes "0 < l"
  defines "n \<equiv> \<lceil>real_of_int k / real_of_int l\<rceil>"
  shows "k - (if k mod l = 0 then l else k mod l) = (n - 1) * l"
    and "(n - 1) * l < k" and "k \<le> n * l"
proof -
  have n: "n = - ((- k) div l)"
    unfolding n_def by (rule ceiling_divide_eq_div)
  have split: "(- k) div l * l = - k - (- k) mod l"
    by (rule minus_mod_eq_div_mult [symmetric])
  have bounds: "0 \<le> (- k) mod l" "(- k) mod l < l"
    using assms(1) by simp_all
  have "n * l = - ((- k) div l * l)"
    unfolding n by simp
  also have "\<dots> = k + (- k) mod l"
    unfolding split by simp
  finally have nl: "n * l = k + (- k) mod l" .
  show "(n - 1) * l < k" using nl bounds by (simp add: algebra_simps)
  show "k \<le> n * l" using nl bounds by simp
  show "k - (if k mod l = 0 then l else k mod l) = (n - 1) * l"
  proof (cases "k mod l = 0")
    case True
    then have "(- k) mod l = 0" by (simp add: zmod_zminus1_eq_if)
    with nl True show ?thesis by (simp add: algebra_simps)
  next
    case False
    then have "(- k) mod l = l - k mod l" by (simp add: zmod_zminus1_eq_if)
    with nl False show ?thesis by (simp add: algebra_simps)
  qed
qed

lemma pos_count:
  fixes k l n :: int
  assumes "0 < l" "0 < k" "k \<le> n * l"
  shows "0 < n"
proof (rule ccontr)
  assume "\<not> 0 < n"
  then have "n * l \<le> 0" using assms(1) by (simp add: mult_nonpos_nonneg)
  with assms(2,3) show False by linarith
qed

lemma smod_pos: "0 < k \<Longrightarrow> 0 < l \<Longrightarrow> k smod l = k mod (l::int)"
  by (simp add: signed_modulo_int_def)

lemma smod_neg: "k < 0 \<Longrightarrow> l < 0 \<Longrightarrow> k smod l = - ((- k) mod (- l :: int))"
  by (simp add: signed_modulo_int_def)

lemma range_last_up:
  fixes start stop step :: int
  assumes "0 < step" "start < stop"
  defines "n \<equiv> \<lceil>real_of_int \<bar>stop - start\<bar> / real_of_int \<bar>step\<bar>\<rceil>"
    and "rem \<equiv> (stop - start) smod step"
  shows "stop - (if rem = 0 then step else rem) = start + (n - 1) * step"
    and "start + (n - 1) * step < stop" and "stop \<le> start + n * step" and "0 < n"
proof -
  have n: "n = \<lceil>real_of_int (stop - start) / real_of_int step\<rceil>"
    using assms(1,2) unfolding n_def by simp
  have rem: "rem = (stop - start) mod step"
    using assms(1,2) unfolding rem_def by (simp add: smod_pos)
  note facts = ceiling_count [OF assms(1), of "stop - start", folded n rem]
  from facts(1) show "stop - (if rem = 0 then step else rem) = start + (n - 1) * step"
    by (simp split: if_splits)
  from facts(2) show "start + (n - 1) * step < stop" by simp
  from facts(3) show "stop \<le> start + n * step" by simp
  show "0 < n"
    by (rule pos_count [OF _ _ facts(3)]) (use assms(1,2) in simp_all)
qed

lemma range_last_down:
  fixes start stop step :: int
  assumes "step < 0" "stop < start"
  defines "n \<equiv> \<lceil>real_of_int \<bar>stop - start\<bar> / real_of_int \<bar>step\<bar>\<rceil>"
    and "rem \<equiv> (stop - start) smod step"
  shows "stop - (if rem = 0 then step else rem) = start + (n - 1) * step"
    and "stop < start + (n - 1) * step" and "start + n * step \<le> stop" and "0 < n"
proof -
  have pos: "0 < - step" using assms(1) by simp
  have n: "n = \<lceil>real_of_int (start - stop) / real_of_int (- step)\<rceil>"
    using assms(1,2) unfolding n_def by simp
  have rem: "- rem = (start - stop) mod (- step)"
    using assms(1,2) unfolding rem_def by (simp add: smod_neg)
  note facts = ceiling_count [OF pos, of "start - stop", folded n rem]
  from facts(1) show "stop - (if rem = 0 then step else rem) = start + (n - 1) * step"
    by (simp split: if_splits add: algebra_simps)
  from facts(2) show "stop < start + (n - 1) * step" by (simp add: algebra_simps)
  from facts(3) show "start + n * step \<le> stop" by (simp add: algebra_simps)
  show "0 < n"
    by (rule pos_count [OF _ _ facts(3)]) (use assms(1,2) in simp_all)
qed

lemma rangeGen_entry: "entry (rangeGen start stop st) = start"
  by (simp add: rangeGen_def Let_def)

lemma rangeGen_resume_below:
  "start \<le> stop \<Longrightarrow> step \<noteq> 0 \<Longrightarrow>
   resume (rangeGen start stop (Some step)) i = (if i < stop then (Yield i, i + step) else (Done, i))"
  by (simp add: rangeGen_def Let_def min_def)

lemma rangeGen_resume_above:
  "stop < start \<Longrightarrow> step \<noteq> 0 \<Longrightarrow>
   resume (rangeGen start stop (Some step)) i = (if stop < i then (Yield i, i + step) else (Done, i))"
  by (simp add: rangeGen_def Let_def min_def)

lemma rangeGen_up:
  assumes "0 < step" "start \<le> stop"
    and "stop \<le> start + int n * step" "start + int n * step - step < stop"
  shows "run (Suc n) (rangeGen start stop (Some step)) = (progression start step n, Returned)"
  unfolding run_def rangeGen_entry
  using assms by (intro run_loop_up [where stop = stop]) (simp_all add: rangeGen_resume_below)

lemma rangeGen_down:
  assumes "step < 0" "stop < start"
    and "start + int n * step \<le> stop" "stop < start + int n * step - step"
  shows "run (Suc n) (rangeGen start stop (Some step)) = (progression start step n, Returned)"
  unfolding run_def rangeGen_entry
  using assms by (intro run_loop_down [where stop = stop]) (simp_all add: rangeGen_resume_above)

lemma rangeGen_up_forever:
  assumes "0 < step" "stop < start"
  shows "run n (rangeGen start stop (Some step)) = (progression start step n, Running)"
  unfolding run_def rangeGen_entry
  using assms by (intro run_loop_up_forever [where stop = stop]) (simp_all add: rangeGen_resume_above)

lemma rangeGen_down_forever:
  assumes "step < 0" "start < stop"
  shows "run n (rangeGen start stop (Some step)) = (progression start step n, Running)"
  unfolding run_def rangeGen_entry
  using assms by (intro run_loop_down_forever [where stop = stop]) (simp_all add: rangeGen_resume_below)

lemma rangeGen_empty: "run (Suc k) (rangeGen 0 0 None) = ([], Returned)"
  by (simp add: run_def rangeGen_def)

lemma run_finished:
  "run k g = (xs, r) \<Longrightarrow> r \<noteq> Running \<Longrightarrow> run (k + m) g = (xs, r)"
  unfolding run_def by (rule run_loop_finished)

section \<open>What the combinators and terminal operations do on a run\<close>

lemma fold_loop_run:
  "run_loop k nx s = (xs, Returned) \<Longrightarrow> fold_loop k fn nx acc s = Some (Inr (foldl fn acc xs))"
proof (induction k arbitrary: s xs acc)
  case 0
  then show ?case by simp
next
  case (Suc k)
  obtain p s' where turn: "nx s = (p, s')" by (cases "nx s")
  show ?case
  proof (cases p)
    case (Yield x)
    obtain ys r where rest: "run_loop k nx s' = (ys, r)" by (cases "run_loop k nx s'")
    with Suc.prems turn Yield have eqs: "xs = x # ys" "r = Returned" by simp_all
    from rest eqs have "run_loop k nx s' = (ys, Returned)" by simp
    from Suc.IH [OF this] turn Yield eqs show ?thesis by simp
  next
    case Skip
    with Suc.prems turn have "run_loop k nx s' = (xs, Returned)" by simp
    from Suc.IH [OF this] turn Skip show ?thesis by simp
  next
    case Done
    with Suc.prems turn show ?thesis by auto
  next
    case (Throw e)
    with Suc.prems turn show ?thesis by simp
  qed
qed


lemma fold_gen_run:
  "run k g = (xs, Returned) \<Longrightarrow> fold_gen k init fn g = Some (Inr (foldl fn init xs))"
  unfolding run_def fold_gen_def by (rule fold_loop_run)


lemma foldl_count: "foldl (\<lambda>acc _. acc + 1) (c::int) xs = c + int (length xs)"
  by (induction xs arbitrary: c) simp_all

lemma count_run: "run k g = (xs, Returned) \<Longrightarrow> count k g = Some (Inr (int (length xs)))"
  unfolding count_def by (simp add: fold_gen_run foldl_count)

lemma take_loop_run:
  "i \<le> n \<Longrightarrow>
   run_loop k (resume (take_gen n g)) (i, s) =
     (case run_loop k (resume g) s of (xs, r) \<Rightarrow>
        if nat (n - i) < length xs then (take (nat (n - i)) xs, Returned) else (xs, r))"
proof (induction k arbitrary: i s)
  case 0
  then show ?case by simp
next
  case (Suc k)
  obtain p s' where turn: "resume g s = (p, s')" by (cases "resume g s")
  show ?case
  proof (cases p)
    case (Yield x)
    obtain ys r where rest: "run_loop k (resume g) s' = (ys, r)"
      by (cases "run_loop k (resume g) s'")
    show ?thesis
    proof (cases "i = n")
      case True
      with turn Yield rest show ?thesis by (simp add: take_gen_def)
    next
      case False
      with Suc.prems have less: "i + 1 \<le> n" by simp
      have more: "nat (n - i) = Suc (nat (n - (i + 1)))" using less by simp
      have "run_loop (Suc k) (resume (take_gen n g)) (i, s) =
          (case run_loop k (resume (take_gen n g)) (i + 1, s') of (xs, r) \<Rightarrow> (x # xs, r))"
        using turn Yield False by (simp add: take_gen_def)
      also have "\<dots> = (if nat (n - (i + 1)) < length ys
          then (x # take (nat (n - (i + 1))) ys, Returned) else (x # ys, r))"
        unfolding Suc.IH [OF less] rest by simp
      also have "\<dots> = (case run_loop (Suc k) (resume g) s of (xs, r) \<Rightarrow>
          if nat (n - i) < length xs then (take (nat (n - i)) xs, Returned) else (xs, r))"
        using turn Yield rest unfolding more by simp
      finally show ?thesis .
    qed
  next
    case Skip
    with turn Suc.IH [OF Suc.prems, of s'] show ?thesis by (simp add: take_gen_def)
  next
    case Done
    with turn show ?thesis by (simp add: take_gen_def)
  next
    case (Throw e)
    with turn show ?thesis by (simp add: take_gen_def)
  qed
qed

lemma take_gen_run:
  "0 \<le> n \<Longrightarrow>
   run k (take_gen n g) =
     (case run k g of (xs, r) \<Rightarrow>
        if nat n < length xs then (take (nat n) xs, Returned) else (xs, r))"
proof -
  assume "0 \<le> n"
  obtain xs r where src: "run_loop k (resume g) (entry g) = (xs, r)"
    by (cases "run_loop k (resume g) (entry g)")
  have "run k (take_gen n g) = run_loop k (resume (take_gen n g)) (0, entry g)"
    by (simp add: run_def take_gen_def)
  also have "\<dots> = (if nat n < length xs then (take (nat n) xs, Returned) else (xs, r))"
    using take_loop_run [OF \<open>0 \<le> n\<close>, of k g "entry g"] src by simp
  finally show ?thesis by (simp add: run_def src)
qed

lemma take_gen_returned:
  "0 \<le> n \<Longrightarrow> run k g = (xs, Returned) \<Longrightarrow> run k (take_gen n g) = (take (nat n) xs, Returned)"
  by (simp add: take_gen_run)

lemma ExactSizedIter_iterator_take: "ExactSizedIter_iterator it = take_gen (len it) (gen it)"
  by (simp add: ExactSizedIter_iterator_def take_gen_def)

lemma skipWhile_loop_run:
  "run_loop k (resume (skipWhile fn g)) s =
     (case run_loop k (resume g) s of (xs, r) \<Rightarrow> (filter (\<lambda>x. \<not> fn x) xs, r))"
proof (induction k arbitrary: s)
  case 0
  then show ?case by simp
next
  case (Suc k)
  obtain p s' where turn: "resume g s = (p, s')" by (cases "resume g s")
  obtain ys r where rest: "run_loop k (resume g) s' = (ys, r)"
    by (cases "run_loop k (resume g) s'")
  from turn rest Suc.IH [of s'] show ?case
    by (cases p) (simp_all add: skipWhile_def)
qed

lemma skipWhile_run:
  "run k (skipWhile fn g) = (case run k g of (xs, r) \<Rightarrow> (filter (\<lambda>x. \<not> fn x) xs, r))"
  using skipWhile_loop_run [of k fn g "entry g"] by (simp add: run_def skipWhile_def)

lemma skip_loop_run:
  "run_loop k (resume (skip n g)) (c, s) =
     (case run_loop k (resume g) s of (xs, r) \<Rightarrow> (drop (nat c) xs, r))"
proof (induction k arbitrary: c s)
  case 0
  then show ?case by simp
next
  case (Suc k)
  obtain p s' where turn: "resume g s = (p, s')" by (cases "resume g s")
  show ?case
  proof (cases p)
    case (Yield x)
    obtain ys r where rest: "run_loop k (resume g) s' = (ys, r)"
      by (cases "run_loop k (resume g) s'")
    show ?thesis
    proof (cases "c \<le> 0")
      case True
      then have "nat c = 0" "nat (c - 1) = 0" by simp_all
      with turn Yield rest True Suc.IH [of "c - 1" s'] show ?thesis
        by (simp add: skip_def)
    next
      case False
      then have "nat c = Suc (nat (c - 1))" by simp
      with turn Yield rest False Suc.IH [of "c - 1" s'] show ?thesis
        by (simp add: skip_def)
    qed
  next
    case Skip
    with turn Suc.IH [of c s'] show ?thesis by (simp add: skip_def)
  next
    case Done
    with turn show ?thesis by (simp add: skip_def)
  next
    case (Throw e)
    with turn show ?thesis by (simp add: skip_def)
  qed
qed

lemma skip_run:
  "run k (skip n g) = (case run k g of (xs, r) \<Rightarrow> (drop (nat n) xs, r))"
  using skip_loop_run [of k n g n "entry g"] by (simp add: run_def skip_def)

section \<open>Cycling and the iterator protocol of the sized tiers\<close>

lemma cycle_pass:
  "run_loop j (resume g) s = (ys, Returned) \<Longrightarrow>
   \<exists>j'. \<forall>K. run_loop (j' + K) (resume (cycle g)) s =
     (case run_loop K (resume (cycle g)) (entry g) of (zs, r) \<Rightarrow> (ys @ zs, r))"
proof (induction j arbitrary: s ys)
  case 0
  then show ?case by simp
next
  case (Suc j)
  obtain p s' where turn: "resume g s = (p, s')" by (cases "resume g s")
  show ?case
  proof (cases p)
    case (Yield x)
    obtain ys' r where rest: "run_loop j (resume g) s' = (ys', r)"
      by (cases "run_loop j (resume g) s'")
    with Suc.prems turn Yield have eqs: "ys = x # ys'" "r = Returned" by simp_all
    from rest eqs have "run_loop j (resume g) s' = (ys', Returned)" by simp
    from Suc.IH [OF this] obtain j' where
      j': "\<And>K. run_loop (j' + K) (resume (cycle g)) s' =
        (case run_loop K (resume (cycle g)) (entry g) of (zs, r) \<Rightarrow> (ys' @ zs, r))"
      by blast
    have "run_loop (Suc j' + K) (resume (cycle g)) s =
        (case run_loop K (resume (cycle g)) (entry g) of (zs, r) \<Rightarrow> (ys @ zs, r))" for K
      using turn Yield eqs j' [of K] by (simp add: cycle_def split: prod.splits)
    then show ?thesis by blast
  next
    case Skip
    with Suc.prems turn have "run_loop j (resume g) s' = (ys, Returned)" by simp
    from Suc.IH [OF this] obtain j' where
      j': "\<And>K. run_loop (j' + K) (resume (cycle g)) s' =
        (case run_loop K (resume (cycle g)) (entry g) of (zs, r) \<Rightarrow> (ys @ zs, r))"
      by blast
    have "run_loop (Suc j' + K) (resume (cycle g)) s =
        (case run_loop K (resume (cycle g)) (entry g) of (zs, r) \<Rightarrow> (ys @ zs, r))" for K
      using turn Skip j' [of K] by (simp add: cycle_def)
    then show ?thesis by blast
  next
    case Done
    with Suc.prems turn have "ys = []" by simp
    have "run_loop (Suc 0 + K) (resume (cycle g)) s =
        (case run_loop K (resume (cycle g)) (entry g) of (zs, r) \<Rightarrow> (ys @ zs, r))" for K
      using turn Done \<open>ys = []\<close> by (simp add: cycle_def split: prod.splits)
    then show ?thesis by blast
  next
    case (Throw e)
    with Suc.prems turn show ?thesis by simp
  qed
qed

lemma cycle_rounds:
  assumes "run j g = (xs, Returned)"
  shows "\<exists>K. run K (cycle g) = (concat (replicate m xs), Running)"
proof (induction m)
  case 0
  have "run 0 (cycle g) = (concat (replicate 0 xs), Running)" by (simp add: run_def)
  then show ?case by blast
next
  case (Suc m)
  then obtain K where K: "run K (cycle g) = (concat (replicate m xs), Running)" by blast
  from assms have "run_loop j (resume g) (entry g) = (xs, Returned)" by (simp add: run_def)
  from cycle_pass [OF this] obtain j' where
    "\<And>K. run_loop (j' + K) (resume (cycle g)) (entry g) =
        (case run_loop K (resume (cycle g)) (entry g) of (zs, r) \<Rightarrow> (xs @ zs, r))"
    by blast
  from this [of K] K have "run (j' + K) (cycle g) = (concat (replicate (Suc m) xs), Running)"
    by (simp add: run_def cycle_def)
  then show ?case by blast
qed

lemma length_concat_replicate: "length (concat (replicate m xs)) = m * length xs"
  by (induction m) simp_all

lemma iterator_of_cycle:
  assumes "0 \<le> n" and "run j g = (xs, Returned)" and "xs \<noteq> []"
  shows "\<exists>K. \<forall>m. run (K + m) (take_gen n (cycle g)) =
           (take (nat n) (concat (replicate (Suc (nat n)) xs)), Returned)"
    and "length (take (nat n) (concat (replicate (Suc (nat n)) xs))) = nat n"
proof -
  from assms(3) have "1 \<le> length xs" by (cases xs) simp_all
  then have "Suc (nat n) * 1 \<le> Suc (nat n) * length xs" by (rule mult_le_mono2)
  then have long: "nat n < length (concat (replicate (Suc (nat n)) xs))"
    unfolding length_concat_replicate by simp
  then show "length (take (nat n) (concat (replicate (Suc (nat n)) xs))) = nat n"
    by simp
  from cycle_rounds [OF assms(2), of "Suc (nat n)"] obtain K where
    K: "run K (cycle g) = (concat (replicate (Suc (nat n)) xs), Running)" by blast
  have "run K (take_gen n (cycle g)) =
      (take (nat n) (concat (replicate (Suc (nat n)) xs)), Returned)"
    using long by (simp only: take_gen_run [OF assms(1)] K prod.case if_True)
  then have "run (K + m) (take_gen n (cycle g)) =
      (take (nat n) (concat (replicate (Suc (nat n)) xs)), Returned)" for m
    by (rule run_finished) simp
  then show "\<exists>K. \<forall>m. run (K + m) (take_gen n (cycle g)) =
           (take (nat n) (concat (replicate (Suc (nat n)) xs)), Returned)"
    by blast
qed

lemma cycle_prefix:
  "run_loop K (resume g) s = (xs, r) \<Longrightarrow>
   \<exists>zs r'. run_loop K (resume (cycle g)) s = (xs @ zs, r')"
proof (induction K arbitrary: s xs r)
  case 0
  then show ?case by simp
next
  case (Suc K)
  obtain p s' where turn: "resume g s = (p, s')" by (cases "resume g s")
  obtain ws q where all: "run_loop (Suc K) (resume (cycle g)) s = (ws, q)"
    by (cases "run_loop (Suc K) (resume (cycle g)) s")
  show ?case
  proof (cases p)
    case (Yield x)
    obtain ys r0 where rest: "run_loop K (resume g) s' = (ys, r0)"
      by (cases "run_loop K (resume g) s'")
    with Suc.prems turn Yield have xs: "xs = x # ys" by simp
    from Suc.IH [OF rest] obtain zs r' where
      "run_loop K (resume (cycle g)) s' = (ys @ zs, r')" by blast
    with turn Yield xs have "run_loop (Suc K) (resume (cycle g)) s = (xs @ zs, r')"
      by (simp add: cycle_def)
    then show ?thesis by blast
  next
    case Skip
    with Suc.prems turn have "run_loop K (resume g) s' = (xs, r)" by simp
    from Suc.IH [OF this] obtain zs r' where
      "run_loop K (resume (cycle g)) s' = (xs @ zs, r')" by blast
    with turn Skip have "run_loop (Suc K) (resume (cycle g)) s = (xs @ zs, r')"
      by (simp add: cycle_def)
    then show ?thesis by blast
  next
    case Done
    with Suc.prems turn have "xs = []" by simp
    with all show ?thesis by simp
  next
    case (Throw e)
    with Suc.prems turn have "xs = []" by simp
    with all show ?thesis by simp
  qed
qed

lemma iterator_of_cycle_long:
  assumes "0 \<le> n" and "run K g = (xs, r)" and "nat n < length xs"
  shows "run K (take_gen n (cycle g)) = (take (nat n) xs, Returned)"
proof -
  from assms(2) have "run_loop K (resume g) (entry g) = (xs, r)" by (simp add: run_def)
  from cycle_prefix [OF this] obtain zs r' where
    "run K (cycle g) = (xs @ zs, r')" by (auto simp add: run_def cycle_def)
  with assms(3) show ?thesis
    by (simp add: take_gen_run [OF assms(1)])
qed

lemma iterator_prefix:
  assumes "0 \<le> len it"
  shows "fst (run k (ExactSizedIter_iterator it)) = take (nat (len it)) (fst (run k (gen it)))"
proof -
  obtain xs r where src: "run k (gen it) = (xs, r)" by (cases "run k (gen it)")
  show ?thesis
    unfolding ExactSizedIter_iterator_take take_gen_run [OF assms] src by simp
qed

section \<open>The exclusive range\<close>

text \<open>
  The exclusive range, for every start, end and non-zero step: the declared length is the
  number \<open>n\<close> of values the forward generator yields before it returns, these values
  are \<open>start, start + step, \<dots>\<close>, and the reverse generator yields the same values
  in reverse order and returns.
\<close>

theorem range_forward_reverse_length:
  assumes "step \<noteq> 0"
  shows "\<exists>it n. range_iter start (Some stop) (Some step) = Inr it \<and>
           len it = int n \<and>
           run (Suc n) (gen it) = (progression start step n, Returned) \<and>
           run (Suc n) (rgen it) = (rev (progression start step n), Returned)"
proof -
  consider (empty) "(0 < step \<and> stop \<le> start) \<or> (step < 0 \<and> start \<le> stop)"
    | (up) "0 < step" "start < stop" | (down) "step < 0" "stop < start"
    using assms by linarith
  then show ?thesis
  proof cases
    case empty
    then have "range_iter start (Some stop) (Some step) =
        Inr \<lparr> gen = rangeGen 0 0 None, len = 0, rgen = rangeGen 0 0 None \<rparr>"
      using assms by (simp add: range_iter_def getRangeParams_def)
    then show ?thesis
      by (intro exI [where x = "0::nat"] exI [where x = "\<lparr> gen = rangeGen 0 0 None, len = 0, rgen = rangeGen 0 0 None \<rparr>"])
        (simp add: rangeGen_empty)
  next
    case up
    define m where "m = \<lceil>real_of_int \<bar>stop - start\<bar> / real_of_int \<bar>step\<bar>\<rceil>"
    define rem where "rem = (stop - start) smod step"
    define last where "last = stop - (if rem = 0 then step else rem)"
    note facts = range_last_up [OF up, folded m_def rem_def]
    define n where "n = nat m - 1"
    have m: "m = int (Suc n)" using facts(4) by (simp add: n_def)
    have last: "last = start + int n * step"
      using facts(1) unfolding last_def m by simp
    have it: "range_iter start (Some stop) (Some step) =
        Inr \<lparr> gen = rangeGen start stop (Some step), len = m,
              rgen = rangeGen last (start - step) (Some (- step)) \<rparr>"
      using up by (simp add: range_iter_def getRangeParams_def Let_def m_def last_def rem_def)
    have fwd: "run (Suc (Suc n)) (rangeGen start stop (Some step)) =
        (progression start step (Suc n), Returned)"
      using up facts(2,3) unfolding m by (intro rangeGen_up) (simp_all add: algebra_simps)
    have "run (Suc (Suc n)) (rangeGen last (start - step) (Some (- step))) =
        (progression last (- step) (Suc n), Returned)"
    proof (rule rangeGen_down)
      have "0 \<le> int n * step" using up(1) by simp
      then show "start - step < last" unfolding last using up(1) by linarith
      show "last + int (Suc n) * - step \<le> start - step"
        unfolding last by (simp add: algebra_simps)
      show "start - step < last + int (Suc n) * - step - - step"
        unfolding last using up(1) by (simp add: algebra_simps)
    qed (use up in simp)
    also have "progression last (- step) (Suc n) = rev (progression start step (Suc n))"
      unfolding last rev_progression by simp
    finally have bwd: "run (Suc (Suc n)) (rangeGen last (start - step) (Some (- step))) =
        (rev (progression start step (Suc n)), Returned)" .
    show ?thesis
      using it fwd bwd m
      by (intro exI [where x = "Suc n"] exI [where x = "\<lparr> gen = rangeGen start stop (Some step), len = m,
              rgen = rangeGen last (start - step) (Some (- step)) \<rparr>"]) simp
  next
    case down
    define m where "m = \<lceil>real_of_int \<bar>stop - start\<bar> / real_of_int \<bar>step\<bar>\<rceil>"
    define rem where "rem = (stop - start) smod step"
    define last where "last = stop - (if rem = 0 then step else rem)"
    note facts = range_last_down [OF down, folded m_def rem_def]
    define n where "n = nat m - 1"
    have m: "m = int (Suc n)" using facts(4) by (simp add: n_def)
    have last: "last = start + int n * step"
      using facts(1) unfolding last_def m by simp
    have it: "range_iter start (Some stop) (Some step) =
        Inr \<lparr> gen = rangeGen start stop (Some step), len = m,
              rgen = rangeGen last (start - step) (Some (- step)) \<rparr>"
      using down by (simp add: range_iter_def getRangeParams_def Let_def m_def last_def rem_def)
    have fwd: "run (Suc (Suc n)) (rangeGen start stop (Some step)) =
        (progression start step (Suc n), Returned)"
      using down facts(2,3) unfolding m by (intro rangeGen_down) (simp_all add: algebra_simps)
    have "run (Suc (Suc n)) (rangeGen last (start - step) (Some (- step))) =
        (progression last (- step) (Suc n), Returned)"
    proof (rule rangeGen_up)
      have "int n * step \<le> 0" using down(1) by (simp add: mult_nonneg_nonpos)
      then show "last \<le> start - step" unfolding last using down(1) by linarith
      show "start - step \<le> last + int (Suc n) * - step"
        unfolding last by (simp add: algebra_simps)
      show "last + int (Suc n) * - step - - step < start - step"
        unfolding last using down(1) by (simp add: algebra_simps)
    qed (use down in simp)
    also have "progression last (- step) (Suc n) = rev (progression start step (Suc n))"
      unfolding last rev_progression by simp
    finally have bwd: "run (Suc (Suc n)) (rangeGen last (start - step) (Some (- step))) =
        (rev (progression start step (Suc n)), Returned)" .
    show ?thesis
      using it fwd bwd m
      by (intro exI [where x = "Suc n"] exI [where x = "\<lparr> gen = rangeGen start stop (Some step), len = m,
              rgen = rangeGen last (start - step) (Some (- step)) \<rparr>"]) simp
  qed
qed

text \<open>
  The exclusive range iterated through the iterator protocol, forwards and after
  \<^verbatim>\<open>rev()\<close>, and counted with \<^verbatim>\<open>count\<close>.
\<close>

theorem range_iteration:
  assumes "step \<noteq> 0"
  shows "\<exists>it n. range_iter start (Some stop) (Some step) = Inr it \<and>
           len it = int n \<and>
           count (Suc n) (gen it) = Some (Inr (len it)) \<and>
           run (Suc n) (ExactSizedIter_iterator it) = (progression start step n, Returned) \<and>
           run (Suc n) (ExactSizedIter_iterator (DoubleEndedIter_rev it)) =
             (rev (progression start step n), Returned)"
proof -
  from range_forward_reverse_length [OF assms, of start stop]
  obtain it n where it: "range_iter start (Some stop) (Some step) = Inr it"
    and n: "len it = int n"
    and fwd: "run (Suc n) (gen it) = (progression start step n, Returned)"
    and bwd: "run (Suc n) (rgen it) = (rev (progression start step n), Returned)"
    by blast
  have "count (Suc n) (gen it) = Some (Inr (len it))"
    using count_run [OF fwd] n by (simp add: length_progression)
  moreover have "run (Suc n) (ExactSizedIter_iterator it) = (progression start step n, Returned)"
    unfolding ExactSizedIter_iterator_take
    using take_gen_returned [OF _ fwd, of "len it"] n by (simp add: length_progression)
  moreover have "run (Suc n) (ExactSizedIter_iterator (DoubleEndedIter_rev it)) =
      (rev (progression start step n), Returned)"
    unfolding ExactSizedIter_iterator_take
    using take_gen_returned [OF _ bwd, of "len it"] n
    by (simp add: length_progression DoubleEndedIter_rev_def)
  ultimately show ?thesis using it n by blast
qed

section \<open>The inclusive range\<close>

lemma progression_generators:
  assumes "step \<noteq> 0"
  shows "run (Suc (Suc m)) (rangeGen start (start + int (Suc m) * step) (Some step)) =
           (progression start step (Suc m), Returned)"
    and "run (Suc (Suc m)) (rangeGen (start + int m * step) (start - step) (Some (- step))) =
           (rev (progression start step (Suc m)), Returned)"
proof -
  have rv: "rev (progression start step (Suc m)) = progression (start + int m * step) (- step) (Suc m)"
    unfolding rev_progression by simp
  consider (up) "0 < step" | (down) "step < 0" using assms by linarith
  then have "run (Suc (Suc m)) (rangeGen start (start + int (Suc m) * step) (Some step)) =
           (progression start step (Suc m), Returned) \<and>
      run (Suc (Suc m)) (rangeGen (start + int m * step) (start - step) (Some (- step))) =
           (progression (start + int m * step) (- step) (Suc m), Returned)"
  proof cases
    case up
    have m: "0 \<le> int m * step" using up by simp
    have "run (Suc (Suc m)) (rangeGen start (start + int (Suc m) * step) (Some step)) =
           (progression start step (Suc m), Returned)"
    proof (rule rangeGen_up)
      show "start \<le> start + int (Suc m) * step" using m up by (simp add: algebra_simps)
      show "start + int (Suc m) * step - step < start + int (Suc m) * step" using up by simp
    qed (use up in simp_all)
    moreover have "run (Suc (Suc m)) (rangeGen (start + int m * step) (start - step) (Some (- step))) =
           (progression (start + int m * step) (- step) (Suc m), Returned)"
    proof (rule rangeGen_down)
      show "start - step < start + int m * step" using m up by linarith
      show "start + int m * step + int (Suc m) * - step \<le> start - step"
        by (simp add: algebra_simps)
      show "start - step < start + int m * step + int (Suc m) * - step - - step"
        using up by (simp add: algebra_simps)
    qed (use up in simp)
    ultimately show ?thesis by simp
  next
    case down
    have m: "int m * step \<le> 0" using down by (simp add: mult_nonneg_nonpos)
    have "run (Suc (Suc m)) (rangeGen start (start + int (Suc m) * step) (Some step)) =
           (progression start step (Suc m), Returned)"
    proof (rule rangeGen_down)
      show "start + int (Suc m) * step < start" using m down by (simp add: algebra_simps)
      show "start + int (Suc m) * step < start + int (Suc m) * step - step" using down by simp
    qed (use down in simp_all)
    moreover have "run (Suc (Suc m)) (rangeGen (start + int m * step) (start - step) (Some (- step))) =
           (progression (start + int m * step) (- step) (Suc m), Returned)"
    proof (rule rangeGen_up)
      show "start + int m * step \<le> start - step" using m down by linarith
      show "start - step \<le> start + int m * step + int (Suc m) * - step"
        by (simp add: algebra_simps)
      show "start + int m * step + int (Suc m) * - step - - step < start - step"
        using down by (simp add: algebra_simps)
    qed (use down in simp)
    ultimately show ?thesis by simp
  qed
  then show "run (Suc (Suc m)) (rangeGen start (start + int (Suc m) * step) (Some step)) =
           (progression start step (Suc m), Returned)"
    and "run (Suc (Suc m)) (rangeGen (start + int m * step) (start - step) (Some (- step))) =
           (rev (progression start step (Suc m)), Returned)"
    unfolding rv by simp_all
qed

text \<open>
  The inclusive range when the step points from the start towards the end (or the two
  are equal): both generators return, the reverse one yields the reversal of the forward
  one, and the declared length is the number of values when the step is positive or
  divides \<open>end - start\<close>, and one less otherwise.
\<close>

theorem irange_forward_reverse:
  assumes "(0 < step \<and> start \<le> stop) \<or> (step < 0 \<and> stop \<le> start)"
  shows "\<exists>it n. irange_iter start (Some stop) (Some step) = Inr it \<and>
           run (Suc n) (gen it) = (progression start step n, Returned) \<and>
           run (Suc n) (rgen it) = (rev (progression start step n), Returned) \<and>
           (if 0 < step \<or> step dvd (stop - start) then len it = int n else len it = int n - 1)"
proof -
  from assms have nz: "step \<noteq> 0" by auto
  define q where "q = (if 0 < step then \<lfloor>real_of_int (stop - start) / real_of_int step\<rfloor>
                       else \<lceil>real_of_int (stop - start) / real_of_int step\<rceil>)"
  have "0 \<le> real_of_int (stop - start) / real_of_int step"
    using assms by (auto simp add: divide_nonpos_neg)
  then have "0 \<le> q" unfolding q_def by (simp add: ceiling_le_iff le_ceiling_iff)
  define m where "m = nat q"
  have q: "q = int m" using \<open>0 \<le> q\<close> by (simp add: m_def)
  define l where "l = \<lfloor>real_of_int \<bar>stop - start\<bar> / real_of_int \<bar>step\<bar>\<rfloor> + 1"
  let ?it = "\<lparr> gen = rangeGen start (start + int (Suc m) * step) (Some step), len = l,
           rgen = rangeGen (start + int m * step) (start - step) (Some (- step)) \<rparr>"
  have last: "(if step > 0
      then start + \<lfloor>real_of_int (stop - start) / real_of_int step\<rfloor> * step
      else start + \<lceil>real_of_int (stop - start) / real_of_int step\<rceil> * step) =
      start + int m * step"
    using q unfolding q_def by (simp split: if_splits)
  have it: "irange_iter start (Some stop) (Some step) = Inr ?it"
    unfolding irange_iter_def getRangeParams_def Let_def l_def
    by (simp only: option.case prod.case last) (simp add: nz algebra_simps)
  have same: "\<bar>stop - start\<bar> div \<bar>step\<bar> = (stop - start) div step"
  proof (cases "0 < step")
    case True
    with assms show ?thesis by simp
  next
    case False
    with assms have "\<bar>stop - start\<bar> = - (stop - start)" "\<bar>step\<bar> = - step" by simp_all
    then show ?thesis by (simp only: div_minus_minus)
  qed
  have lq: "l = (stop - start) div step + 1"
    unfolding l_def floor_divide_of_int_eq same ..
  have len: "if 0 < step \<or> step dvd (stop - start) then l = int (Suc m) else l = int (Suc m) - 1"
  proof (cases "0 < step")
    case True
    then have "q = (stop - start) div step"
      unfolding q_def using floor_divide_of_int_eq [of "stop - start" step, where ?'a = real] by presburger
    with q have "int m = (stop - start) div step"
      by (simp only:)
    with True lq show ?thesis by simp
  next
    case False
    then have "q = - ((- (stop - start)) div step)"
      unfolding q_def using ceiling_divide_eq_div [of "stop - start" step, where ?'a = real] by presburger
    with q have c: "int m = - ((- (stop - start)) div step)"
      by (simp only:)
    show ?thesis
    proof (cases "step dvd (stop - start)")
      case True
      then have "- ((- (stop - start)) div step) = (stop - start) div step"
        using dvd_neg_div [of step "stop - start"] by simp
      with c lq True show ?thesis by simp
    next
      case nd: False
      then have "(- (stop - start)) div step = - ((stop - start) div step) - 1"
        using zdiv_zminus1_eq_if [where a = "stop - start" and b = step] nz
        by (simp add: mod_eq_0_iff_dvd)
      with c lq nd False show ?thesis by simp
    qed
  qed
  from progression_generators [OF nz, of m start] len it show ?thesis
    by (intro exI [where x = "?it"] exI [where x = "Suc m"]) (simp split: if_splits)
qed






section \<open>Reverse order of the ranges\<close>

text \<open>
  Claim C1: for every integer start, end and non-zero step, the reverse generator of
  \<^verbatim>\<open>range(start, end, step)\<close> and of \<^verbatim>\<open>irange(start, end, step)\<close> yields the reversal
  of what the forward generator yields. \<^verbatim>\<open>range\<close> meets it for every input
  (\<open>range_forward_reverse_length\<close>), and \<^verbatim>\<open>irange\<close> meets it when the step points
  from the start towards the end (\<open>irange_forward_reverse\<close>). The code departs from it
  when the step points away from the end, the case \<^verbatim>\<open>range\<close> guards against and
  \<^verbatim>\<open>irange\<close> does not: \<^verbatim>\<open>irange(5, 2, 1)\<close> builds \<^verbatim>\<open>rangeGen(5, 3, 1)\<close> and
  \<^verbatim>\<open>rangeGen(2, 4, -1)\<close> with declared length \<open>4\<close>; the forward generator yields
  \<open>5, 6, 7, \<dots>\<close> and the reverse generator \<open>2, 1, 0, \<dots>\<close>, and neither returns
  after any number of turns, so neither sequence is the reversal of the other. Iterating
  the iterator itself gives \<open>[5, 6, 7, 8]\<close>, and iterating its \<^verbatim>\<open>rev()\<close> gives
  \<open>[2, 1, 0, -1]\<close>.
\<close>

theorem irange_unreachable_end_never_returns:
  "irange_iter 5 (Some 2) (Some 1) =
     Inr \<lparr> gen = rangeGen 5 3 (Some 1), len = 4, rgen = rangeGen 2 4 (Some (- 1)) \<rparr> \<and>
   (\<forall>k. run k (rangeGen 5 3 (Some 1)) = (progression 5 1 k, Running)) \<and>
   (\<forall>k. run k (rangeGen 2 4 (Some (- 1))) = (progression 2 (- 1) k, Running)) \<and>
   run 5 (ExactSizedIter_iterator
     \<lparr> gen = rangeGen 5 3 (Some 1), len = 4, rgen = rangeGen 2 4 (Some (- 1)) \<rparr>) =
     ([5, 6, 7, 8], Returned) \<and>
   run 5 (ExactSizedIter_iterator (DoubleEndedIter_rev
     \<lparr> gen = rangeGen 5 3 (Some 1), len = 4, rgen = rangeGen 2 4 (Some (- 1)) \<rparr>)) =
     ([2, 1, 0, - 1], Returned)"
proof (intro conjI allI)
  show "irange_iter 5 (Some 2) (Some 1) =
     Inr \<lparr> gen = rangeGen 5 3 (Some 1), len = 4, rgen = rangeGen 2 4 (Some (- 1)) \<rparr>"
    by (simp add: irange_iter_def getRangeParams_def)
  show "run k (rangeGen 5 3 (Some 1)) = (progression 5 1 k, Running)" for k
    by (rule rangeGen_up_forever) simp_all
  show "run k (rangeGen 2 4 (Some (- 1))) = (progression 2 (- 1) k, Running)" for k
    by (rule rangeGen_down_forever) simp_all
  show "run 5 (ExactSizedIter_iterator
     \<lparr> gen = rangeGen 5 3 (Some 1), len = 4, rgen = rangeGen 2 4 (Some (- 1)) \<rparr>) =
     ([5, 6, 7, 8], Returned)"
    by (simp add: run_def ExactSizedIter_iterator_def rangeGen_def eval_nat_numeral)
  show "run 5 (ExactSizedIter_iterator (DoubleEndedIter_rev
     \<lparr> gen = rangeGen 5 3 (Some 1), len = 4, rgen = rangeGen 2 4 (Some (- 1)) \<rparr>)) =
     ([2, 1, 0, - 1], Returned)"
    by (simp add: run_def ExactSizedIter_iterator_def DoubleEndedIter_rev_def rangeGen_def eval_nat_numeral)
qed

section \<open>Declared length of the ranges\<close>

text \<open>
  Claim C2: for every integer start, end and non-zero step, the declared length of
  \<^verbatim>\<open>range(start, end, step)\<close> and of \<^verbatim>\<open>irange(start, end, step)\<close> is the number of
  values its forward generator yields. \<^verbatim>\<open>range\<close> meets it for every input
  (\<open>range_forward_reverse_length\<close>, \<open>range_iteration\<close>), and \<^verbatim>\<open>irange\<close> meets it for
  a positive step with \<open>start \<le> end\<close> and for a negative step that reaches the end
  exactly (\<open>irange_forward_reverse\<close>). The code departs from it for a negative step
  that does not reach the end exactly: \<^verbatim>\<open>irange(10, 1, -2)\<close> declares the length
  \<open>floor(9 / 2) + 1 = 5\<close>, but rounds its last value with \<^verbatim>\<open>Math.ceil\<close> to \<open>0\<close>, so
  its forward generator yields the six values \<open>10, 8, 6, 4, 2, 0\<close> (the last one beyond
  the end \<open>1\<close>) and \<^verbatim>\<open>count\<close> of it is \<open>6\<close>.
\<close>

theorem irange_negative_step_overshoots:
  "irange_iter 10 (Some 1) (Some (- 2)) =
     Inr \<lparr> gen = rangeGen 10 (- 2) (Some (- 2)), len = 5, rgen = rangeGen 0 12 (Some 2) \<rparr> \<and>
   run 7 (rangeGen 10 (- 2) (Some (- 2))) = ([10, 8, 6, 4, 2, 0], Returned) \<and>
   count 7 (rangeGen 10 (- 2) (Some (- 2))) = Some (Inr 6)"
proof (intro conjI)
  show "irange_iter 10 (Some 1) (Some (- 2)) =
     Inr \<lparr> gen = rangeGen 10 (- 2) (Some (- 2)), len = 5, rgen = rangeGen 0 12 (Some 2) \<rparr>"
    by (simp add: irange_iter_def getRangeParams_def)
  show "run 7 (rangeGen 10 (- 2) (Some (- 2))) = ([10, 8, 6, 4, 2, 0], Returned)"
    by (simp add: run_def rangeGen_def eval_nat_numeral)
  show "count 7 (rangeGen 10 (- 2) (Some (- 2))) = Some (Inr 6)"
    by (simp add: count_def fold_gen_def rangeGen_def eval_nat_numeral)
qed

section \<open>skipWhile\<close>

text \<open>
  Claim C3: \<^verbatim>\<open>skipWhile(fn)\<close> discards the maximal leading run of elements on which
  \<open>fn\<close> is true and yields every later element, whatever \<open>fn\<close> says of it. The code
  departs from it: the loop goes on testing \<open>fn\<close> after the leading run
  (\<^verbatim>\<open>if (fn(item)) continue;\<close>), so it yields exactly the elements on which \<open>fn\<close> is
  false (\<open>skipWhile_run\<close>). On the array \<open>[1, 5, 2]\<close> with \<open>fn x = (x < 3)\<close> it yields
  \<open>[5]\<close>, where dropping the leading run gives \<open>[5, 2]\<close>.
\<close>

theorem skipWhile_drops_later_elements:
  "run 4 (gen (Iter_skipWhile (\<lambda>x. x < 3) (iter_GenFn (gen (iter_Array [1::int, 5, 2]))))) =
     ([5], Returned) \<and>
   dropWhile (\<lambda>x. x < 3) [1::int, 5, 2] = [5, 2]"
  by (simp add: run_def Iter_skipWhile_def iter_GenFn_def skipWhile_def iter_Array_def eval_nat_numeral)

section \<open>Declared length after skip\<close>

text \<open>
  What \<^verbatim>\<open>skip(n)\<close> does on an exact-sized iterator whose declared length is the number
  of values of its finite source, for \<open>n \<ge> 0\<close>: the generator yields the source without
  its first \<open>n\<close> values, \<open>max(0, len - n)\<close> of them, and the declared length is
  \<open>len - n\<close>.
\<close>

theorem skip_length_and_count:
  assumes "run k (gen it) = (xs, Returned)" and "len it = int (length xs)" and "0 \<le> n"
  shows "len (ExactSizedIter_skip n it) = len it - n \<and>
         count k (gen (ExactSizedIter_skip n it)) = Some (Inr (max 0 (len it - n)))"
proof -
  have "run k (skip n (gen it)) = (drop (nat n) xs, Returned)"
    using assms(1) by (simp add: skip_run)
  from count_run [OF this] have "count k (skip n (gen it)) = Some (Inr (int (length xs - nat n)))"
    by simp
  moreover have "int (length xs - nat n) = max 0 (len it - n)"
    using assms(2,3) by simp
  ultimately show ?thesis by (simp add: ExactSizedIter_skip_def)
qed

text \<open>
  Claim C4: \<^verbatim>\<open>skip(n)\<close> with \<open>n \<ge> 0\<close> on the exact-sized and double-ended tiers
  declares the length \<open>max(0, len - n)\<close>, never a negative one. The code departs from it
  when \<open>n\<close> exceeds the declared length: it declares \<^verbatim>\<open>this._len - n\<close>, with no lower
  bound. Skipping \<open>5\<close> elements of the array \<open>[1, 2, 3]\<close> declares the length \<open>-2\<close>,
  while the generator yields nothing.
\<close>

theorem skip_past_length_negative:
  "len (DoubleEndedIter_skip 5 (iter_Array [1::int, 2, 3])) = - 2 \<and>
   run 4 (gen (DoubleEndedIter_skip 5 (iter_Array [1::int, 2, 3]))) = ([], Returned) \<and>
   len (ExactSizedIter_skip 5 \<lparr> gen = gen (iter_Array [1::int, 2, 3]), len = 3 \<rparr>) = - 2"
  by (simp add: run_def DoubleEndedIter_skip_def ExactSizedIter_skip_def skip_def iter_Array_def eval_nat_numeral)

section \<open>Declared length after take\<close>

text \<open>
  Claim C5 (amended). For a source whose generator yields the finite sequence \<open>xs\<close> and
  returns, and \<open>n \<ge> 0\<close>: \<^verbatim>\<open>take(n)\<close> on the base tier and on the exact-sized tier
  declares the length \<open>n\<close>; its generator \<^verbatim>\<open>take(n)(gen)\<close> yields the first \<open>n\<close>
  elements of \<open>xs\<close> and returns, so \<^verbatim>\<open>count\<close> of it is \<open>min(n, length xs)\<close>. The
  declared length is an upper bound of that count, and equals it exactly when \<open>n\<close> is at
  most the number of elements of the source.
\<close>

theorem take_declared_length:
  assumes "0 \<le> n" and "run k g = (xs, Returned)"
  shows "len (Iter_take n \<lparr> gen = g \<rparr>) = n \<and>
         len (ExactSizedIter_take n \<lparr> gen = g, len = l \<rparr>) = n \<and>
         gen (Iter_take n \<lparr> gen = g \<rparr>) = take_gen n g \<and>
         gen (ExactSizedIter_take n \<lparr> gen = g, len = l \<rparr>) = take_gen n g \<and>
         run k (take_gen n g) = (take (nat n) xs, Returned) \<and>
         count k (take_gen n g) = Some (Inr (min n (int (length xs)))) \<and>
         min n (int (length xs)) \<le> n \<and>
         ((n = min n (int (length xs))) = (n \<le> int (length xs)))"
proof -
  have taken: "run k (take_gen n g) = (take (nat n) xs, Returned)"
    using assms by (rule take_gen_returned)
  have "int (length (take (nat n) xs)) = min n (int (length xs))"
    using assms(1) unfolding length_take by linarith
  with count_run [OF taken] have "count k (take_gen n g) = Some (Inr (min n (int (length xs))))"
    by simp
  moreover have "min n (int (length xs)) \<le> n"
    by simp
  moreover have "(n = min n (int (length xs))) = (n \<le> int (length xs))"
    by (simp add: min_def)
  ultimately show ?thesis
    using taken by (simp only: Iter_take_def ExactSizedIter_take_def) simp
qed

theorem take_declared_length_witness:
  "(0::int) \<le> 5 \<and> run 4 (gen (iter_Array [1::int, 2, 3])) = ([1, 2, 3], Returned) \<and>
   len (Iter_take 5 \<lparr> gen = gen (iter_Array [1::int, 2, 3]) \<rparr>) = 5 \<and>
   run 4 (take_gen 5 (gen (iter_Array [1::int, 2, 3]))) = ([1, 2, 3], Returned) \<and>
   count 4 (take_gen 5 (gen (iter_Array [1::int, 2, 3]))) = Some (Inr 3)"
proof -
  have h1: "(0::int) \<le> 5" by simp
  have h2: "run 4 (gen (iter_Array [1::int, 2, 3])) = ([1, 2, 3], Returned)"
    by (simp add: run_def iter_Array_def eval_nat_numeral)
  show ?thesis
    using take_declared_length [OF h1 h2] h2 by simp
qed

text \<open>
  Claim C5 as stated fails: the array \<open>[1, 2, 3]\<close> has three elements, and \<^verbatim>\<open>take(5)\<close>
  of it declares the length \<open>5\<close>, not \<open>min(5, 3) = 3\<close>.
\<close>

theorem take_length_not_min_counterexample:
  "count 4 (gen (iter_Array [1::int, 2, 3])) = Some (Inr 3) \<and>
   len (Iter_take 5 (iter_GenFn (gen (iter_Array [1::int, 2, 3])))) = 5 \<and>
   len (ExactSizedIter_take 5 \<lparr> gen = gen (iter_Array [1::int, 2, 3]), len = 3 \<rparr>) = 5 \<and>
   (5::int) \<noteq> min 5 3"
  by (simp add: count_def fold_gen_def Iter_take_def ExactSizedIter_take_def iter_GenFn_def
      iter_Array_def eval_nat_numeral)

section \<open>Zero step\<close>

text \<open>
  Claim C6. Calling \<^verbatim>\<open>range\<close> or \<^verbatim>\<open>irange\<close> with a step of \<open>0\<close> fails with the
  invalid-argument error at construction: the result is the error itself, no iterator is
  built and no generator is ever resumed, whatever the other arguments are. The same holds
  for the two constructors of the utilities file.
\<close>

theorem range_irange_zero_step:
  "range_iter arg1 arg2 (Some 0) = Inl StepCannotBeZero \<and>
   irange_iter arg1 arg2 (Some 0) = Inl StepCannotBeZero \<and>
   range_utils arg1 arg2 (Some 0) = Inl StepCannotBeZero \<and>
   irange_utils arg1 arg2 (Some 0) = Inl StepCannotBeZero"
  by (simp add: range_iter_def irange_iter_def range_utils_def irange_utils_def
      getRangeParams_def split: prod.splits)

section \<open>Empty ranges\<close>

text \<open>
  Claim C7. When the step cannot reach the end from the start (\<open>step > 0\<close> and
  \<open>start \<ge> end\<close>, or \<open>step < 0\<close> and \<open>start \<le> end\<close>), \<^verbatim>\<open>range(start, end, step)\<close>
  returns the empty double-ended iterator \<^verbatim>\<open>DoubleEndedIter(rangeGen(0, 0), rangeGen(0, 0), 0)\<close>:
  its declared length is \<open>0\<close>, and its forward generator, its reverse generator and its
  own iteration return at once without yielding, whatever the number of turns allowed.
\<close>

theorem range_mismatch_empty:
  assumes "(step > 0 \<and> start \<ge> stop) \<or> (step < 0 \<and> start \<le> stop)"
  shows "\<exists>it. range_iter start (Some stop) (Some step) = Inr it \<and>
           it = \<lparr> gen = rangeGen 0 0 None, len = 0, rgen = rangeGen 0 0 None \<rparr> \<and>
           len it = 0 \<and>
           run (Suc k) (gen it) = ([], Returned) \<and>
           run (Suc k) (rgen it) = ([], Returned) \<and>
           run (Suc k) (ExactSizedIter_iterator it) = ([], Returned)"
proof -
  from assms have "step \<noteq> 0" by auto
  with assms have "range_iter start (Some stop) (Some step) =
      Inr \<lparr> gen = rangeGen 0 0 None, len = 0, rgen = rangeGen 0 0 None \<rparr>"
    by (simp add: range_iter_def getRangeParams_def)
  moreover have "run (Suc k) (ExactSizedIter_iterator
      \<lparr> gen = rangeGen 0 0 None, len = 0, rgen = rangeGen 0 0 None \<rparr>) = ([], Returned)"
    by (simp add: run_def ExactSizedIter_iterator_def rangeGen_def)
  ultimately show ?thesis
    by (simp add: rangeGen_empty)
qed

theorem range_mismatch_empty_witness:
  "((1::int) > 0 \<and> (5::int) \<ge> 2) \<and>
   (\<exists>it. range_iter 5 (Some 2) (Some 1) = Inr it \<and>
      it = \<lparr> gen = rangeGen 0 0 None, len = 0, rgen = rangeGen 0 0 None \<rparr> \<and>
      len it = 0 \<and>
      run (Suc 3) (gen it) = ([], Returned) \<and>
      run (Suc 3) (rgen it) = ([], Returned) \<and>
      run (Suc 3) (ExactSizedIter_iterator it) = ([], Returned))"
proof -
  have h: "((1::int) > 0 \<and> (5::int) \<ge> 2) \<or> ((1::int) < 0 \<and> (5::int) \<le> 2)" by simp
  show ?thesis
    using range_mismatch_empty [OF h, of 3] by simp
qed

section \<open>fold and reduce of an empty source\<close>



section \<open>The two inclusive-range constructors\<close>




section \<open>Iteration of the sized tiers and cycle\<close>

text \<open>
  Claim C10. An exact-sized or double-ended iterator \<open>it\<close> with a declared length
  \<open>len it \<ge> 0\<close>, iterated through its own iterator protocol, has yielded after any
  number of turns the first \<open>len it\<close> of the values its forward generator has yielded by
  then, and so at most \<open>len it\<close> values. When the forward generator yields a non-empty
  finite sequence \<open>xs\<close> and returns, the generator of \<^verbatim>\<open>cycle()\<close> yields any number of
  copies of \<open>xs\<close> without returning, and iterating the result of \<^verbatim>\<open>cycle()\<close> returns
  after exactly \<open>len it\<close> values, the first \<open>len it\<close> values of the repeated \<open>xs\<close>.
  When the forward generator itself yields more than \<open>len it\<close> values (it need not
  return), iterating the result of \<^verbatim>\<open>cycle()\<close> returns after its first \<open>len it\<close>
  values.
\<close>

theorem exact_sized_iteration_truncates:
  fixes it :: "('s, 'a, 'z) ExactSizedIter_scheme"
    and e :: "('t, 'b) ExactSizedIter" and d :: "('u, 'c) DoubleEndedIter"
  shows
   "(0 \<le> len it \<longrightarrow>
       fst (run k (ExactSizedIter_iterator it)) = take (nat (len it)) (fst (run k (gen it))) \<and>
       length (fst (run k (ExactSizedIter_iterator it))) \<le> nat (len it)) \<and>
    (0 \<le> len e \<and> run j (gen e) = (xs, Returned) \<and> xs \<noteq> [] \<longrightarrow>
       (\<exists>K. \<forall>m. run (K + m) (ExactSizedIter_iterator (ExactSizedIter_cycle e)) =
          (take (nat (len e)) (concat (replicate (Suc (nat (len e))) xs)), Returned)) \<and>
       length (take (nat (len e)) (concat (replicate (Suc (nat (len e))) xs))) = nat (len e) \<and>
       (\<forall>m. \<exists>K. run K (gen (ExactSizedIter_cycle e)) = (concat (replicate m xs), Running))) \<and>
    (0 \<le> len e \<and> run j (gen e) = (xs, r) \<and> nat (len e) < length xs \<longrightarrow>
       run j (ExactSizedIter_iterator (ExactSizedIter_cycle e)) = (take (nat (len e)) xs, Returned)) \<and>
    (0 \<le> len d \<and> run i (gen d) = (ys, Returned) \<and> ys \<noteq> [] \<longrightarrow>
       (\<exists>K. \<forall>m. run (K + m) (ExactSizedIter_iterator (DoubleEndedIter_cycle d)) =
          (take (nat (len d)) (concat (replicate (Suc (nat (len d))) ys)), Returned)) \<and>
       length (take (nat (len d)) (concat (replicate (Suc (nat (len d))) ys))) = nat (len d) \<and>
       (\<forall>m. \<exists>K. run K (gen (DoubleEndedIter_cycle d)) = (concat (replicate m ys), Running))) \<and>
    (0 \<le> len d \<and> run i (gen d) = (ys, r') \<and> nat (len d) < length ys \<longrightarrow>
       run i (ExactSizedIter_iterator (DoubleEndedIter_cycle d)) = (take (nat (len d)) ys, Returned))"
proof (intro conjI impI)
  assume "0 \<le> len it"
  then show prefix: "fst (run k (ExactSizedIter_iterator it)) =
      take (nat (len it)) (fst (run k (gen it)))"
    by (rule iterator_prefix)
  show "length (fst (run k (ExactSizedIter_iterator it))) \<le> nat (len it)"
    unfolding prefix by simp
next
  assume h: "0 \<le> len e \<and> run j (gen e) = (xs, Returned) \<and> xs \<noteq> []"
  have it: "ExactSizedIter_iterator (ExactSizedIter_cycle e) = take_gen (len e) (cycle (gen e))"
    by (simp add: ExactSizedIter_iterator_take ExactSizedIter_cycle_def)
  from h show "\<exists>K. \<forall>m. run (K + m) (ExactSizedIter_iterator (ExactSizedIter_cycle e)) =
          (take (nat (len e)) (concat (replicate (Suc (nat (len e))) xs)), Returned)"
    unfolding it by (intro iterator_of_cycle(1) [where j = j]) simp_all
  from h show "length (take (nat (len e)) (concat (replicate (Suc (nat (len e))) xs))) = nat (len e)"
    by (intro iterator_of_cycle(2) [where j = j and g = "gen e"]) simp_all
  from h show "\<forall>m. \<exists>K. run K (gen (ExactSizedIter_cycle e)) = (concat (replicate m xs), Running)"
    by (auto simp add: ExactSizedIter_cycle_def intro: cycle_rounds)
next
  assume h: "0 \<le> len e \<and> run j (gen e) = (xs, r) \<and> nat (len e) < length xs"
  have it: "ExactSizedIter_iterator (ExactSizedIter_cycle e) = take_gen (len e) (cycle (gen e))"
    by (simp add: ExactSizedIter_iterator_take ExactSizedIter_cycle_def)
  from h show "run j (ExactSizedIter_iterator (ExactSizedIter_cycle e)) =
      (take (nat (len e)) xs, Returned)"
    unfolding it by (intro iterator_of_cycle_long [where r = r]) simp_all
next
  assume h: "0 \<le> len d \<and> run i (gen d) = (ys, Returned) \<and> ys \<noteq> []"
  have it: "ExactSizedIter_iterator (DoubleEndedIter_cycle d) = take_gen (len d) (cycle (gen d))"
    by (simp add: ExactSizedIter_iterator_take DoubleEndedIter_cycle_def)
  from h show "\<exists>K. \<forall>m. run (K + m) (ExactSizedIter_iterator (DoubleEndedIter_cycle d)) =
          (take (nat (len d)) (concat (replicate (Suc (nat (len d))) ys)), Returned)"
    unfolding it by (intro iterator_of_cycle(1) [where j = i]) simp_all
  from h show "length (take (nat (len d)) (concat (replicate (Suc (nat (len d))) ys))) = nat (len d)"
    by (intro iterator_of_cycle(2) [where j = i and g = "gen d"]) simp_all
  from h show "\<forall>m. \<exists>K. run K (gen (DoubleEndedIter_cycle d)) = (concat (replicate m ys), Running)"
    by (auto simp add: DoubleEndedIter_cycle_def intro: cycle_rounds)
next
  assume h: "0 \<le> len d \<and> run i (gen d) = (ys, r') \<and> nat (len d) < length ys"
  have it: "ExactSizedIter_iterator (DoubleEndedIter_cycle d) = take_gen (len d) (cycle (gen d))"
    by (simp add: ExactSizedIter_iterator_take DoubleEndedIter_cycle_def)
  from h show "run i (ExactSizedIter_iterator (DoubleEndedIter_cycle d)) =
      (take (nat (len d)) ys, Returned)"
    unfolding it by (intro iterator_of_cycle_long [where r = r']) simp_all
qed

theorem exact_sized_iteration_truncates_witness:
  "(0::int) \<le> len (iter_Array [1::int, 2, 3]) \<and>
   run 4 (gen (iter_Array [1::int, 2, 3])) = ([1, 2, 3], Returned) \<and>
   run 3 (gen (iter_Array [1::int, 2])) = ([1, 2], Returned) \<and>
   fst (run 2 (ExactSizedIter_iterator (DoubleEndedIter_take 1 (iter_Array [1::int, 2, 3])))) = [1] \<and>
   (\<exists>K. \<forall>m. run (K + m) (ExactSizedIter_iterator (DoubleEndedIter_cycle (iter_Array [1::int, 2, 3]))) =
      ([1, 2, 3], Returned)) \<and>
   (\<exists>K. \<forall>m. run (K + m) (ExactSizedIter_iterator
       (ExactSizedIter_cycle \<lparr> gen = gen (iter_Array [1::int, 2]), len = 5 \<rparr>)) =
      ([1, 2, 1, 2, 1], Returned))"
proof -
  have h1: "run 4 (gen (iter_Array [1::int, 2, 3])) = ([1, 2, 3], Returned)"
    by (simp add: run_def iter_Array_def eval_nat_numeral)
  have h2: "run 3 (gen (iter_Array [1::int, 2])) = ([1, 2], Returned)"
    by (simp add: run_def iter_Array_def eval_nat_numeral)
  have l: "len (iter_Array [1::int, 2, 3]) = 3"
    by (simp add: iter_Array_def)
  have t: "run 2 (gen (DoubleEndedIter_take 1 (iter_Array [1::int, 2, 3]))) = ([1], Returned)"
    by (simp add: run_def DoubleEndedIter_take_def take_gen_def iter_Array_def eval_nat_numeral)
  have t': "len (DoubleEndedIter_take 1 (iter_Array [1::int, 2, 3])) = 1"
    by (simp add: DoubleEndedIter_take_def)
  note inst = exact_sized_iteration_truncates
    [where it = "DoubleEndedIter_take 1 (iter_Array [1::int, 2, 3])" and k = 2
       and e = "\<lparr> gen = gen (iter_Array [1::int, 2]), len = 5 \<rparr>" and j = 3 and xs = "[1, 2]"
       and r = Returned and d = "iter_Array [1::int, 2, 3]" and i = 4 and ys = "[1, 2, 3]"
       and r' = Returned]
  from inst h1 h2 l t t' show ?thesis
    by (simp add: eval_nat_numeral)
qed

end
